theory Spec2Isabelle
  imports Complex_Main "HOL-Library.Word"
begin

unbundle bit_operations_syntax

section \<open>JavaScript values used by the PlantUML encoding utilities\<close>

text \<open>
  A JavaScript string is a sequence of 16-bit UTF-16 code units, a \<open>Uint8Array\<close> a
  sequence of bytes.  The numbers that occur in \<open>src/App.tsx\<close> are integers; they are
  modelled as \<open>int\<close>, and the bitwise operators go through the 32-bit conversion that
  JavaScript applies to their operands.
\<close>

type_synonym code_unit = "16 word"
type_synonym jsstring = "code_unit list"
type_synonym byte = "8 word"

text \<open>A string literal of the source: each character becomes its code unit.\<close>

definition js :: "string \<Rightarrow> jsstring" where
  "js s = map (\<lambda>c. word_of_nat (of_char c)) s"

text \<open>\<open>ToInt32\<close>: the operand conversion of \<open>>>\<close>, \<open><<\<close>, \<open>&\<close> and \<open>|\<close>.\<close>

definition ToInt32 :: "int \<Rightarrow> int" where
  "ToInt32 x = signed_take_bit 31 x"

text \<open>\<open>x >> n\<close> (sign-propagating), \<open>x << n\<close>, \<open>x & y\<close>, \<open>x | y\<close>.\<close>

definition js_shr :: "int \<Rightarrow> nat \<Rightarrow> int" where
  "js_shr x n = drop_bit (n mod 32) (ToInt32 x)"

definition js_shl :: "int \<Rightarrow> nat \<Rightarrow> int" where
  "js_shl x n = ToInt32 (push_bit (n mod 32) (ToInt32 x))"

definition js_and :: "int \<Rightarrow> int \<Rightarrow> int" where
  "js_and x y = ToInt32 x AND ToInt32 y"

definition js_or :: "int \<Rightarrow> int \<Rightarrow> int" where
  "js_or x y = ToInt32 x OR ToInt32 y"

text \<open>\<open>String.fromCharCode(n)\<close>: the one-unit string of \<open>n\<close> modulo \<open>2^16\<close>.\<close>

definition fromCharCode :: "int \<Rightarrow> jsstring" where
  "fromCharCode n = [word_of_int n]"

section \<open>The 6-bit encoder (\<open>src/App.tsx\<close>, lines 7 to 47)\<close>

definition encode6bit :: "int \<Rightarrow> jsstring" where
  "encode6bit b =
     (if b < 10 then fromCharCode (48 + b)
      else if b < 36 then fromCharCode (65 + b - 10)
      else if b < 62 then fromCharCode (97 + b - 36)
      else if b = 62 then js ''-''
      else if b = 63 then js ''_''
      else js ''?'')"

definition encode3bytes :: "int \<Rightarrow> int \<Rightarrow> int \<Rightarrow> jsstring" where
  "encode3bytes b1 b2 b3 =
     (let c1 = js_shr b1 2;
          c2 = js_or (js_shl (js_and b1 0x3) 4) (js_shr b2 4);
          c3 = js_or (js_shl (js_and b2 0xf) 2) (js_shr b3 6);
          c4 = js_and b3 0x3f
      in encode6bit (js_and c1 0x3f) @
         encode6bit (js_and c2 0x3f) @
         encode6bit (js_and c3 0x3f) @
         encode6bit (js_and c4 0x3f))"

text \<open>
  The \<open>for\<close> loop of \<open>encode64\<close>: \<open>i\<close> is the loop index, \<open>r\<close> the string built so far.
  Every read \<open>data[i]\<close> is guarded by the bound tests of the source.
\<close>

function encode64_loop :: "byte list \<Rightarrow> nat \<Rightarrow> jsstring \<Rightarrow> jsstring" where
  "encode64_loop data i r =
     (if i < length data then
        (if i + 2 < length data then
           encode64_loop data (i + 3)
             (r @ encode3bytes (uint (data ! i)) (uint (data ! (i + 1))) (uint (data ! (i + 2))))
         else if i + 1 < length data then
           (let b1 = uint (data ! i);
                b2 = uint (data ! (i + 1));
                c1 = js_shr b1 2;
                c2 = js_or (js_shl (js_and b1 0x3) 4) (js_shr b2 4);
                c3 = js_shl (js_and b2 0xf) 2
            in encode64_loop data (i + 3)
                 (r @ encode6bit (js_and c1 0x3f) @ encode6bit (js_and c2 0x3f) @
                      encode6bit (js_and c3 0x3f)))
         else
           (let b1 = uint (data ! i);
                c1 = js_shr b1 2;
                c2 = js_shl (js_and b1 0x3) 4
            in encode64_loop data (i + 3)
                 (r @ encode6bit (js_and c1 0x3f) @ encode6bit (js_and c2 0x3f))))
      else r)"
  by pat_completeness auto
termination
  by (relation "measure (\<lambda>(data, i, r). length data - i)") auto

declare encode64_loop.simps [simp del]

definition encode64 :: "byte list \<Rightarrow> jsstring" where
  "encode64 data = encode64_loop data 0 []"

section \<open>The URL pipeline (\<open>src/App.tsx\<close>, lines 49 to 62)\<close>

subsection \<open>The two \<open>replace\<close> calls and \<open>trim\<close>\<close>

text \<open>
  The regular expressions \<open>/```[a-z]*\n?/gi\<close> and \<open>/```\n?/gi\<close> have no anchor: a match
  starts wherever three backticks stand.  It then takes the longest run of tag characters
  (greedy \<open>[a-z]*\<close>, which under the flag \<open>i\<close> is the letters \<open>a-z\<close> and \<open>A-Z\<close>; the
  second expression has no tag) and one line feed if there is one.  Nothing after the three
  backticks can fail, so there is no backtracking.
\<close>

definition fence :: jsstring where
  "fence = js ''```''"

definition ascii_letter :: "code_unit \<Rightarrow> bool" where
  "ascii_letter c = (let n = uint c in (97 \<le> n \<and> n \<le> 122) \<or> (65 \<le> n \<and> n \<le> 90))"

definition no_tag :: "code_unit \<Rightarrow> bool" where
  "no_tag c = False"

text \<open>\<open>\n?\<close>: one line feed is taken when it is the next code unit.\<close>

definition skip_newline :: "jsstring \<Rightarrow> jsstring" where
  "skip_newline s = (case s of [] \<Rightarrow> [] | c # cs \<Rightarrow> if c = 0x0A then cs else c # cs)"

text \<open>
  A match of the expression at the start of \<open>s\<close>: \<open>None\<close> when \<open>s\<close> does not start with
  three backticks, otherwise the text that follows the match.
\<close>

definition match_fence :: "(code_unit \<Rightarrow> bool) \<Rightarrow> jsstring \<Rightarrow> jsstring option" where
  "match_fence tag s =
     (if take 3 s = fence then Some (skip_newline (dropWhile tag (drop 3 s))) else None)"

text \<open>
  \<open>s.replace(re, '')\<close> with the flag \<open>g\<close>: from left to right, a match is dropped and the
  search goes on behind it; a code unit where no match starts is kept.
\<close>

function remove_fences :: "(code_unit \<Rightarrow> bool) \<Rightarrow> jsstring \<Rightarrow> jsstring" where
  "remove_fences tag [] = []"
| "remove_fences tag (c # cs) =
     (case match_fence tag (c # cs) of
        Some rest \<Rightarrow> remove_fences tag rest
      | None \<Rightarrow> c # remove_fences tag cs)"
  by pat_completeness auto
termination
proof (relation "measure (\<lambda>(tag, s). length s)")
  fix tag :: "code_unit \<Rightarrow> bool" and c :: code_unit and cs rest :: jsstring
  assume "match_fence tag (c # cs) = Some rest"
  then have r: "rest = skip_newline (dropWhile tag (drop 3 (c # cs)))"
    by (simp add: match_fence_def split: if_splits)
  have "length (skip_newline xs) \<le> length xs" for xs
    by (simp add: skip_newline_def split: list.split)
  then have "length rest \<le> length (dropWhile tag (drop 3 (c # cs)))"
    unfolding r .
  also have "\<dots> \<le> length (drop 3 (c # cs))"
    by (rule length_dropWhile_le)
  also have "\<dots> < length (c # cs)"
    by simp
  finally show "((tag, rest), (tag, c # cs)) \<in> measure (\<lambda>(tag, s). length s)"
    by simp
qed simp_all

text \<open>
  \<open>String.prototype.trim\<close> removes white space and line terminators from both ends: TAB,
  LF, VT, FF, CR, SPACE, NBSP, U+1680, U+2000 to U+200A, U+2028, U+2029, U+202F, U+205F,
  U+3000 and U+FEFF.
\<close>

definition js_whitespace :: "code_unit \<Rightarrow> bool" where
  "js_whitespace c =
     (let n = uint c in
      n = 0x09 \<or> n = 0x0A \<or> n = 0x0B \<or> n = 0x0C \<or> n = 0x0D \<or> n = 0x20 \<or> n = 0xA0 \<or>
      n = 0x1680 \<or> (0x2000 \<le> n \<and> n \<le> 0x200A) \<or> n = 0x2028 \<or> n = 0x2029 \<or>
      n = 0x202F \<or> n = 0x205F \<or> n = 0x3000 \<or> n = 0xFEFF)"

definition trim :: "jsstring \<Rightarrow> jsstring" where
  "trim s = rev (dropWhile js_whitespace (rev (dropWhile js_whitespace s)))"

text \<open>
  The value of \<open>cleanCode\<close> in line 52:
  \<open>code.replace(/```[a-z]*\n?/gi, '').replace(/```\n?/gi, '').trim()\<close>.
\<close>

definition cleanCode :: "jsstring \<Rightarrow> jsstring" where
  "cleanCode code = trim (remove_fences no_tag (remove_fences ascii_letter code))"

subsection \<open>\<open>TextEncoder.encode\<close>\<close>

text \<open>
  UTF-8 of a string of UTF-16 code units: a surrogate pair is one code point of four
  bytes, a surrogate that stands alone becomes U+FFFD.
\<close>

definition utf8_code_point :: "nat \<Rightarrow> byte list" where
  "utf8_code_point n =
     (if n < 0x80 then [word_of_nat n]
      else if n < 0x800 then [word_of_nat (0xC0 + n div 0x40), word_of_nat (0x80 + n mod 0x40)]
      else if n < 0x10000 then
        [word_of_nat (0xE0 + n div 0x1000), word_of_nat (0x80 + n div 0x40 mod 0x40),
         word_of_nat (0x80 + n mod 0x40)]
      else
        [word_of_nat (0xF0 + n div 0x40000), word_of_nat (0x80 + n div 0x1000 mod 0x40),
         word_of_nat (0x80 + n div 0x40 mod 0x40), word_of_nat (0x80 + n mod 0x40)])"

definition high_surrogate :: "code_unit \<Rightarrow> bool" where
  "high_surrogate c = (0xD800 \<le> unat c \<and> unat c < 0xDC00)"

definition low_surrogate :: "code_unit \<Rightarrow> bool" where
  "low_surrogate c = (0xDC00 \<le> unat c \<and> unat c < 0xE000)"

fun utf8_encode :: "jsstring \<Rightarrow> byte list" where
  "utf8_encode [] = []"
| "utf8_encode [c] =
     (if high_surrogate c \<or> low_surrogate c then utf8_code_point 0xFFFD
      else utf8_code_point (unat c))"
| "utf8_encode (c # d # ds) =
     (if high_surrogate c \<and> low_surrogate d then
        utf8_code_point (0x10000 + (unat c - 0xD800) * 0x400 + (unat d - 0xDC00)) @ utf8_encode ds
      else if high_surrogate c \<or> low_surrogate c then
        utf8_code_point 0xFFFD @ utf8_encode (d # ds)
      else utf8_code_point (unat c) @ utf8_encode (d # ds))"

subsection \<open>\<open>getPlantUMLUrl\<close>\<close>

text \<open>
  A thrown value is an error value, and an outcome is \<open>Inl\<close> of the thrown value or
  \<open>Inr\<close> of the returned string.  The console is the list of the \<open>console.error\<close> calls
  made so far.  \<open>pako.deflate(data, { level: 9 })\<close> belongs to a library outside the
  repository: it is the parameter \<open>deflate\<close>, which returns bytes or throws.
\<close>

datatype js_error = Error string

type_synonym console = "(jsstring \<times> js_error) list"

text \<open>The body of the \<open>try\<close> block, lines 52 to 57.\<close>

definition try_block ::
  "(byte list \<Rightarrow> js_error + byte list) \<Rightarrow> jsstring \<Rightarrow> js_error + jsstring" where
  "try_block deflate code =
     (let cleanCode = cleanCode code;
          data = utf8_encode cleanCode
      in case deflate data of
           Inl e \<Rightarrow> Inl e
         | Inr compressed \<Rightarrow>
             (let encoded = encode64 compressed
              in Inr (js ''https://plantuml.com/plantuml/svg/~1'' @ encoded)))"

text \<open>
  The guard \<open>if (!code) return ""\<close> (for a string, \<open>!code\<close> holds exactly for the empty
  one), then the \<open>try\<close> block; the \<open>catch\<close> clause logs and returns the empty string.
\<close>

definition getPlantUMLUrl ::
  "(byte list \<Rightarrow> js_error + byte list) \<Rightarrow> jsstring \<Rightarrow> console \<Rightarrow>
     (js_error + jsstring) \<times> console" where
  "getPlantUMLUrl deflate code con =
     (if code = [] then (Inr [], con)
      else case try_block deflate code of
             Inr url \<Rightarrow> (Inr url, con)
           | Inl e \<Rightarrow> (Inr [], con @ [(js ''Encoding error'', e)]))"

section \<open>The encoder as the specification words it\<close>

text \<open>
  The 64-symbol alphabet, indexed 0 to 63: 0 to 9 are the digits (value + 48), 10 to 35
  the capital letters (value - 10 + 65), 36 to 61 the small letters (value - 36 + 97),
  62 is the hyphen and 63 the underscore.
\<close>

definition alphabet :: "int \<Rightarrow> code_unit" where
  "alphabet v =
     (if v \<le> 9 then word_of_int (v + 48)
      else if v \<le> 35 then word_of_int (v - 10 + 65)
      else if v \<le> 61 then word_of_int (v - 36 + 97)
      else if v = 62 then 0x2D
      else 0x5F)"

text \<open>
  The six-bit groups of one group of bytes: four for three bytes, three for a two-byte
  tail, two for a one-byte tail, on the unsigned values of the bytes.
\<close>

definition sextets :: "byte list \<Rightarrow> int list" where
  "sextets bs =
     (case map uint bs of
        [b1, b2, b3] \<Rightarrow>
          [drop_bit 2 b1,
           push_bit 4 (b1 AND 0x3) OR drop_bit 4 b2,
           push_bit 2 (b2 AND 0xF) OR drop_bit 6 b3,
           b3 AND 0x3F]
      | [b1, b2] \<Rightarrow>
          [drop_bit 2 b1,
           push_bit 4 (b1 AND 0x3) OR drop_bit 4 b2,
           push_bit 2 (b2 AND 0xF)]
      | [b1] \<Rightarrow> [drop_bit 2 b1, push_bit 4 (b1 AND 0x3)]
      | _ \<Rightarrow> [])"

text \<open>Three bytes at a time, then the tail.\<close>

fun spec_encode64 :: "byte list \<Rightarrow> jsstring" where
  "spec_encode64 (b1 # b2 # b3 # rest) = map alphabet (sextets [b1, b2, b3]) @ spec_encode64 rest"
| "spec_encode64 [b1, b2] = map alphabet (sextets [b1, b2])"
| "spec_encode64 [b1] = map alphabet (sextets [b1])"
| "spec_encode64 [] = []"

section \<open>The inverse 6-bit decoding\<close>

text \<open>
  The repository has an encoder only; the decoder is on the side of the render server.
  To state the round trip, the inverse transform is written out here: a symbol goes back
  to its index, four symbols to three bytes, a tail of three symbols to two bytes and a
  tail of two symbols to one byte; \<open>word_of_int\<close> keeps the low eight bits.
\<close>

definition decode6bit :: "code_unit \<Rightarrow> int" where
  "decode6bit c =
     (let n = uint c in
      if 48 \<le> n \<and> n \<le> 57 then n - 48
      else if 65 \<le> n \<and> n \<le> 90 then n - 65 + 10
      else if 97 \<le> n \<and> n \<le> 122 then n - 97 + 36
      else if n = 45 then 62
      else if n = 95 then 63
      else 0)"

fun decode64 :: "jsstring \<Rightarrow> byte list" where
  "decode64 (k1 # k2 # k3 # k4 # rest) =
     (let c1 = decode6bit k1; c2 = decode6bit k2; c3 = decode6bit k3; c4 = decode6bit k4
      in [word_of_int (push_bit 2 c1 OR drop_bit 4 c2),
          word_of_int (push_bit 4 c2 OR drop_bit 2 c3),
          word_of_int (push_bit 6 c3 OR c4)] @ decode64 rest)"
| "decode64 [k1, k2, k3] =
     (let c1 = decode6bit k1; c2 = decode6bit k2; c3 = decode6bit k3
      in [word_of_int (push_bit 2 c1 OR drop_bit 4 c2),
          word_of_int (push_bit 4 c2 OR drop_bit 2 c3)])"
| "decode64 [k1, k2] =
     (let c1 = decode6bit k1; c2 = decode6bit k2
      in [word_of_int (push_bit 2 c1 OR drop_bit 4 c2)])"
| "decode64 ks = []"

text \<open>The character class \<open>[0-9A-Za-z_-]\<close> on code units.\<close>

definition url_symbol :: "code_unit \<Rightarrow> bool" where
  "url_symbol c =
     (let n = uint c in
      (48 \<le> n \<and> n \<le> 57) \<or> (65 \<le> n \<and> n \<le> 90) \<or> (97 \<le> n \<and> n \<le> 122) \<or> n = 45 \<or> n = 95)"

section \<open>Fences in a text\<close>

text \<open>Three backticks in a row occur somewhere in the text.\<close>

fun has_fence :: "jsstring \<Rightarrow> bool" where
  "has_fence [] = False"
| "has_fence (c # cs) = (take 3 (c # cs) = fence \<or> has_fence cs)"

text \<open>
  Every occurrence of three backticks stands in the middle of a line: a code unit other
  than a line feed stands before it and another one after it.  \<open>prev\<close> is the code unit
  before the current position, \<open>None\<close> at the start of the text.
\<close>

definition line_middle :: "code_unit option \<Rightarrow> jsstring \<Rightarrow> bool" where
  "line_middle prev after =
     (case prev of
        None \<Rightarrow> False
      | Some p \<Rightarrow> p \<noteq> 0x0A \<and> (case after of [] \<Rightarrow> False | a # rest \<Rightarrow> a \<noteq> 0x0A))"

fun fences_mid_line :: "code_unit option \<Rightarrow> jsstring \<Rightarrow> bool" where
  "fences_mid_line prev [] = True"
| "fences_mid_line prev (c # cs) =
     ((if take 3 (c # cs) = fence then line_middle prev (drop 3 (c # cs)) else True)
      \<and> fences_mid_line (Some c) cs)"

section \<open>Bit-level facts about the encoder\<close>

lemma mask2_int: "(3::int) = mask 2" by (simp add: mask_eq_exp_minus_1)
lemma mask4_int: "(15::int) = mask 4" by (simp add: mask_eq_exp_minus_1)
lemma mask6_int: "(63::int) = mask 6" by (simp add: mask_eq_exp_minus_1)

lemmas js_bits = js_and_def js_or_def js_shr_def js_shl_def ToInt32_def

lemma Suc_Suc_diff2:
  "2 \<le> n \<Longrightarrow> Suc (Suc (n - 2)) = n" "\<not> n < 2 \<Longrightarrow> Suc (Suc (n - 2)) = n"
  by simp_all

lemma and63_bounds: "0 \<le> js_and x 0x3f \<and> js_and x 0x3f < 64"
proof -
  have "ToInt32 63 = 63" by (simp add: ToInt32_def signed_take_bit_int_eq_self)
  then show ?thesis
    unfolding js_and_def
    using AND_upper2 [of 63 "ToInt32 x"] by (simp add: and_nonnegative_int_iff)
qed

lemma encode6bit_alphabet:
  assumes "0 \<le> v" "v < 64"
  shows "encode6bit v = [alphabet v]"
proof -
  have "v \<le> 9 \<or> (10 \<le> v \<and> v \<le> 35) \<or> (36 \<le> v \<and> v \<le> 61) \<or> v = 62 \<or> v = 63"
    using assms by arith
  then show ?thesis
    by (elim disjE) (simp_all add: encode6bit_def alphabet_def fromCharCode_def js_def add.commute)
qed

lemma uint_byte_take_bit: "uint (b::byte) = take_bit 8 (uint b)"
  using uint_ge_0 [of b] uint_lt2p [of b] by (simp add: take_bit_eq_mod)

lemma sextet1_js: "js_and (js_shr (take_bit 8 k) 2) 0x3f = drop_bit 2 (take_bit 8 k)"
  apply (rule bit_eqI)
  unfolding mask2_int mask4_int mask6_int js_bits
  apply (auto simp add: bit_simps Suc_Suc_diff2)
  done

lemma sextet2_js: "js_and (js_or (js_shl (js_and (take_bit 8 k) 0x3) 4) (js_shr (take_bit 8 l) 4)) 0x3f
   = push_bit 4 (take_bit 8 k AND 0x3) OR drop_bit 4 (take_bit 8 l)"
  apply (rule bit_eqI)
  unfolding mask2_int mask4_int mask6_int js_bits
  apply (auto simp add: bit_simps Suc_Suc_diff2)
  done

lemma sextet3_js: "js_and (js_or (js_shl (js_and (take_bit 8 k) 0xf) 2) (js_shr (take_bit 8 l) 6)) 0x3f
   = push_bit 2 (take_bit 8 k AND 0xF) OR drop_bit 6 (take_bit 8 l)"
  apply (rule bit_eqI)
  unfolding mask2_int mask4_int mask6_int js_bits
  apply (auto simp add: bit_simps Suc_Suc_diff2)
  done

lemma sextet4_js: "js_and (js_and (take_bit 8 k) 0x3f) 0x3f = take_bit 8 k AND 0x3F"
  apply (rule bit_eqI)
  unfolding mask2_int mask4_int mask6_int js_bits
  apply (auto simp add: bit_simps Suc_Suc_diff2)
  done

lemma sextet3_tail_js: "js_and (js_shl (js_and (take_bit 8 k) 0xf) 2) 0x3f
   = push_bit 2 (take_bit 8 k AND 0xF)"
  apply (rule bit_eqI)
  unfolding mask2_int mask4_int mask6_int js_bits
  apply (auto simp add: bit_simps Suc_Suc_diff2)
  done

lemma sextet2_tail_js: "js_and (js_shl (js_and (take_bit 8 k) 0x3) 4) 0x3f
   = push_bit 4 (take_bit 8 k AND 0x3)"
  apply (rule bit_eqI)
  unfolding mask2_int mask4_int mask6_int js_bits
  apply (auto simp add: bit_simps Suc_Suc_diff2)
  done

lemmas sextet1_byte = sextet1_js [of "uint b" for b :: byte, folded uint_byte_take_bit]
lemmas sextet2_byte = sextet2_js [of "uint b1" "uint b2" for b1 b2 :: byte, folded uint_byte_take_bit]
lemmas sextet3_byte = sextet3_js [of "uint b1" "uint b2" for b1 b2 :: byte, folded uint_byte_take_bit]
lemmas sextet4_byte = sextet4_js [of "uint b" for b :: byte, folded uint_byte_take_bit]
lemmas sextet3_tail_byte = sextet3_tail_js [of "uint b" for b :: byte, folded uint_byte_take_bit]
lemmas sextet2_tail_byte = sextet2_tail_js [of "uint b" for b :: byte, folded uint_byte_take_bit]

lemma encode6bit_masked: "encode6bit (js_and x 0x3f) = [alphabet (js_and x 0x3f)]"
  using and63_bounds[of x] by (simp add: encode6bit_alphabet)

lemma encode3bytes_sextets:
  "encode3bytes (uint b1) (uint b2) (uint b3) = map alphabet (sextets [b1, b2, b3])"
  unfolding encode3bytes_def Let_def encode6bit_masked
  unfolding sextet1_byte sextet2_byte sextet3_byte sextet4_byte by (simp add: sextets_def)


lemma tail2_sextets:
  "encode6bit (js_and (js_shr (uint b1) 2) 0x3f) @
   encode6bit (js_and (js_or (js_shl (js_and (uint b1) 0x3) 4) (js_shr (uint b2) 4)) 0x3f) @
   encode6bit (js_and (js_shl (js_and (uint b2) 0xf) 2) 0x3f) = map alphabet (sextets [b1, b2])"
  unfolding encode6bit_masked
  unfolding sextet1_byte sextet2_byte sextet3_tail_byte by (simp add: sextets_def)

lemma tail1_sextets:
  "encode6bit (js_and (js_shr (uint b1) 2) 0x3f) @
   encode6bit (js_and (js_shl (js_and (uint b1) 0x3) 4) 0x3f) = map alphabet (sextets [b1])"
  unfolding encode6bit_masked
  unfolding sextet1_byte sextet2_tail_byte by (simp add: sextets_def)

lemma encode64_loop_past: "length data \<le> i \<Longrightarrow> encode64_loop data i r = r"
  by (subst encode64_loop.simps) simp

lemma encode64_loop_spec:
  "encode64_loop data i r = r @ spec_encode64 (drop i data)"
proof (induction data i r rule: encode64_loop.induct)
  case (1 data i r)
  show ?case
  proof (cases "i + 2 < length data")
    case True
    then have d: "drop i data = data ! i # data ! (i + 1) # data ! (i + 2) # drop (i + 3) data"
      by (simp add: Cons_nth_drop_Suc numeral_3_eq_3 add.commute flip: Cons_nth_drop_Suc)
    from True have "encode64_loop data i r =
        encode64_loop data (i + 3)
          (r @ encode3bytes (uint (data ! i)) (uint (data ! (i + 1))) (uint (data ! (i + 2))))"
      by (subst encode64_loop.simps) simp
    also have "\<dots> = (r @ encode3bytes (uint (data ! i)) (uint (data ! (i + 1))) (uint (data ! (i + 2))))
         @ spec_encode64 (drop (i + 3) data)"
      using True by (intro "1.IH"(1)) simp_all
    finally show ?thesis unfolding d by (simp add: encode3bytes_sextets)
  next
    case False
    show ?thesis
    proof (cases "i + 1 < length data")
      case True
      with False have d: "drop i data = [data ! i, data ! (i + 1)]"
        by (simp add: Cons_nth_drop_Suc  flip: Cons_nth_drop_Suc)
      from True False have "encode64_loop data i r =
         r @ encode6bit (js_and (js_shr (uint (data ! i)) 2) 0x3f) @
   encode6bit (js_and (js_or (js_shl (js_and (uint (data ! i)) 0x3) 4) (js_shr (uint (data ! (i+1))) 4)) 0x3f) @
   encode6bit (js_and (js_shl (js_and (uint (data ! (i+1))) 0xf) 2) 0x3f)"
        by (subst encode64_loop.simps) (simp add: Let_def encode64_loop_past)
      then show ?thesis unfolding d tail2_sextets by simp
    next
      case F2: False
      show ?thesis
      proof (cases "i < length data")
        case True
        with F2 have d: "drop i data = [data ! i]"
          by (simp add: Cons_nth_drop_Suc  flip: Cons_nth_drop_Suc)
        from True F2 False have "encode64_loop data i r =
           r @ encode6bit (js_and (js_shr (uint (data ! i)) 2) 0x3f) @
           encode6bit (js_and (js_shl (js_and (uint (data ! i)) 0x3) 4) 0x3f)"
          by (subst encode64_loop.simps) (simp add: Let_def encode64_loop_past)
        then show ?thesis unfolding d tail1_sextets by simp
      next
        case False
        then show ?thesis by (simp add: encode64_loop_past sextets_def)
      qed
    qed
  qed
qed

lemma encode64_spec: "encode64 data = spec_encode64 data"
  by (simp add: encode64_def encode64_loop_spec)


lemma uint_alphabet:
  assumes "0 \<le> v" "v < 64"
  shows "uint (alphabet v) =
     (if v \<le> 9 then v + 48 else if v \<le> 35 then v + 55 else if v \<le> 61 then v + 61
      else if v = 62 then 45 else 95)"
proof -
  have u: "uint (word_of_int k :: code_unit) = k" if "0 \<le> k" "k < 65536" for k
    using that by (simp add: uint_word_of_int take_bit_eq_mod)
  consider "v \<le> 9" | "10 \<le> v \<and> v \<le> 35" | "36 \<le> v \<and> v \<le> 61" | "v = 62" | "v = 63"
    using assms by arith
  then show ?thesis
  proof cases
    case 1
    then have "uint (alphabet v) = uint (word_of_int (v + 48) :: code_unit)"
      by (simp add: alphabet_def)
    also have "\<dots> = v + 48" using assms by (intro u) simp_all
    finally show ?thesis using 1 by simp
  next
    case 2
    then have "uint (alphabet v) = uint (word_of_int (v + 55) :: code_unit)"
      by (simp add: alphabet_def add.commute)
    also have "\<dots> = v + 55" using assms by (intro u) simp_all
    finally show ?thesis using 2 by simp
  next
    case 3
    then have "uint (alphabet v) = uint (word_of_int (v + 61) :: code_unit)"
      by (simp add: alphabet_def add.commute)
    also have "\<dots> = v + 61" using assms by (intro u) simp_all
    finally show ?thesis using 3 by simp
  next
    case 4
    then show ?thesis by (simp add: alphabet_def)
  next
    case 5
    then show ?thesis by (simp add: alphabet_def)
  qed
qed

lemma decode6bit_alphabet:
  assumes "0 \<le> v" "v < 64"
  shows "decode6bit (alphabet v) = v"
  using assms unfolding decode6bit_def Let_def uint_alphabet [OF assms] by auto

lemma url_symbol_alphabet:
  assumes "0 \<le> v" "v < 64"
  shows "url_symbol (alphabet v)"
  using assms unfolding url_symbol_def Let_def uint_alphabet [OF assms] by auto

lemma sextet_ranges:
  fixes b1 b2 b3 :: byte
  shows "0 \<le> drop_bit 2 (uint b1) \<and> drop_bit 2 (uint b1) < 64"
    and "0 \<le> push_bit 4 (uint b1 AND 0x3) OR drop_bit 4 (uint b2) \<and>
         push_bit 4 (uint b1 AND 0x3) OR drop_bit 4 (uint b2) < 64"
    and "0 \<le> push_bit 2 (uint b2 AND 0xF) OR drop_bit 6 (uint b3) \<and>
         push_bit 2 (uint b2 AND 0xF) OR drop_bit 6 (uint b3) < 64"
    and "0 \<le> uint b3 AND 0x3F \<and> uint b3 AND 0x3F < 64"
    and "0 \<le> push_bit 2 (uint b2 AND 0xF) \<and> push_bit 2 (uint b2 AND 0xF) < 64"
    and "0 \<le> push_bit 4 (uint b1 AND 0x3) \<and> push_bit 4 (uint b1 AND 0x3) < 64"
  using and63_bounds [of "js_shr (uint b1) 2"]
        and63_bounds [of "js_or (js_shl (js_and (uint b1) 0x3) 4) (js_shr (uint b2) 4)"]
        and63_bounds [of "js_or (js_shl (js_and (uint b2) 0xf) 2) (js_shr (uint b3) 6)"]
        and63_bounds [of "js_and (uint b3) 0x3f"]
        and63_bounds [of "js_shl (js_and (uint b2) 0xf) 2"]
        and63_bounds [of "js_shl (js_and (uint b1) 0x3) 4"]
  unfolding sextet1_byte sextet2_byte sextet3_byte sextet4_byte sextet3_tail_byte sextet2_tail_byte by blast+

lemma add_diff_max: "(k::nat) + (n - k) = max k n" "Suc (Suc (n - 2)) = max 2 n"
  by simp_all

lemma byte1_back:
  fixes b1 b2 :: byte
  shows "word_of_int (push_bit 2 (drop_bit 2 (uint b1)) OR
           drop_bit 4 (push_bit 4 (uint b1 AND 0x3) OR drop_bit 4 (uint b2))) = b1"
  apply (rule bit_eqI)
  unfolding mask2_int mask4_int mask6_int
  apply (auto simp add: bit_simps add_diff_max max_def dest: bit_imp_le_length)
  done

lemma byte1_back_tail:
  fixes b1 :: byte
  shows "word_of_int (push_bit 2 (drop_bit 2 (uint b1)) OR
           drop_bit 4 (push_bit 4 (uint b1 AND 0x3))) = b1"
  apply (rule bit_eqI)
  unfolding mask2_int mask4_int mask6_int
  apply (auto simp add: bit_simps add_diff_max max_def dest: bit_imp_le_length)
  done

lemma byte2_back:
  fixes b1 b2 b3 :: byte
  shows "word_of_int (push_bit 4 (push_bit 4 (uint b1 AND 0x3) OR drop_bit 4 (uint b2)) OR
           drop_bit 2 (push_bit 2 (uint b2 AND 0xF) OR drop_bit 6 (uint b3))) = b2"
  apply (rule bit_eqI)
  unfolding mask2_int mask4_int mask6_int
  apply (auto simp add: bit_simps add_diff_max max_def dest: bit_imp_le_length)
  done

lemma byte2_back_tail:
  fixes b1 b2 :: byte
  shows "word_of_int (push_bit 4 (push_bit 4 (uint b1 AND 0x3) OR drop_bit 4 (uint b2)) OR
           drop_bit 2 (push_bit 2 (uint b2 AND 0xF))) = b2"
  apply (rule bit_eqI)
  unfolding mask2_int mask4_int mask6_int
  apply (auto simp add: bit_simps add_diff_max max_def dest: bit_imp_le_length)
  done

lemma byte3_back:
  fixes b2 b3 :: byte
  shows "word_of_int (push_bit 6 (push_bit 2 (uint b2 AND 0xF) OR drop_bit 6 (uint b3)) OR
           (uint b3 AND 0x3F)) = b3"
  apply (rule bit_eqI)
  unfolding mask2_int mask4_int mask6_int
  apply (auto simp add: bit_simps add_diff_max max_def dest: bit_imp_le_length)
  done

lemma sextets3:
  obtains s1 s2 s3 s4 where "sextets [b1, b2, b3] = [s1, s2, s3, s4]"
    and "0 \<le> s1 \<and> s1 < 64" and "0 \<le> s2 \<and> s2 < 64" and "0 \<le> s3 \<and> s3 < 64" and "0 \<le> s4 \<and> s4 < 64"
    and "word_of_int (push_bit 2 s1 OR drop_bit 4 s2) = b1"
    and "word_of_int (push_bit 4 s2 OR drop_bit 2 s3) = b2"
    and "word_of_int (push_bit 6 s3 OR s4) = b3"
proof (rule that)
  show "sextets [b1, b2, b3] =
     [drop_bit 2 (uint b1), push_bit 4 (uint b1 AND 0x3) OR drop_bit 4 (uint b2),
      push_bit 2 (uint b2 AND 0xF) OR drop_bit 6 (uint b3), uint b3 AND 0x3F]"
    unfolding sextets_def list.map list.case ..
qed (rule sextet_ranges byte1_back byte2_back byte3_back)+

lemma sextets2:
  obtains s1 s2 s3 where "sextets [b1, b2] = [s1, s2, s3]"
    and "0 \<le> s1 \<and> s1 < 64" and "0 \<le> s2 \<and> s2 < 64" and "0 \<le> s3 \<and> s3 < 64"
    and "word_of_int (push_bit 2 s1 OR drop_bit 4 s2) = b1"
    and "word_of_int (push_bit 4 s2 OR drop_bit 2 s3) = b2"
proof (rule that)
  show "sextets [b1, b2] =
     [drop_bit 2 (uint b1), push_bit 4 (uint b1 AND 0x3) OR drop_bit 4 (uint b2),
      push_bit 2 (uint b2 AND 0xF)]"
    unfolding sextets_def list.map list.case ..
qed (rule sextet_ranges byte1_back byte2_back_tail)+

lemma sextets1:
  obtains s1 s2 where "sextets [b1] = [s1, s2]"
    and "0 \<le> s1 \<and> s1 < 64" and "0 \<le> s2 \<and> s2 < 64"
    and "word_of_int (push_bit 2 s1 OR drop_bit 4 s2) = b1"
proof (rule that)
  show "sextets [b1] = [drop_bit 2 (uint b1), push_bit 4 (uint b1 AND 0x3)]"
    unfolding sextets_def list.map list.case ..
qed (rule sextet_ranges byte1_back_tail)+

lemma sextets0: "sextets [] = []"
  by (simp add: sextets_def)

lemma decode64_spec_encode64: "decode64 (spec_encode64 bs) = bs"
proof (induction bs rule: spec_encode64.induct)
  case (1 b1 b2 b3 rest)
  obtain s1 s2 s3 s4 where s: "sextets [b1, b2, b3] = [s1, s2, s3, s4]"
    and r: "0 \<le> s1 \<and> s1 < 64" "0 \<le> s2 \<and> s2 < 64" "0 \<le> s3 \<and> s3 < 64" "0 \<le> s4 \<and> s4 < 64"
    and b: "word_of_int (push_bit 2 s1 OR drop_bit 4 s2) = b1"
      "word_of_int (push_bit 4 s2 OR drop_bit 2 s3) = b2"
      "word_of_int (push_bit 6 s3 OR s4) = b3"
    by (rule sextets3)
  show ?case using 1 r b by (simp add: s decode6bit_alphabet)
next
  case 4
  then show ?case by (simp add: sextets0)
next
  case (3 b1)
  obtain s1 s2 where s: "sextets [b1] = [s1, s2]"
    and r: "0 \<le> s1 \<and> s1 < 64" "0 \<le> s2 \<and> s2 < 64"
    and b: "word_of_int (push_bit 2 s1 OR drop_bit 4 s2) = b1"
    by (rule sextets1)
  show ?case using r b by (simp add: s decode6bit_alphabet)
next
  case (2 b1 b2)
  obtain s1 s2 s3 where s: "sextets [b1, b2] = [s1, s2, s3]"
    and r: "0 \<le> s1 \<and> s1 < 64" "0 \<le> s2 \<and> s2 < 64" "0 \<le> s3 \<and> s3 < 64"
    and b: "word_of_int (push_bit 2 s1 OR drop_bit 4 s2) = b1"
      "word_of_int (push_bit 4 s2 OR drop_bit 2 s3) = b2"
    by (rule sextets2)
  show ?case using r b by (simp add: s decode6bit_alphabet)
qed

lemma length_sextets:
  "length (sextets [b1, b2, b3]) = 4" "length (sextets [b1, b2]) = 3"
  "length (sextets [b1]) = 2" "length (sextets []) = 0"
  by (simp_all add: sextets_def)

lemma length_spec_encode64:
  "length (spec_encode64 bs) =
     (length bs div 3) * 4 + (if length bs mod 3 = 0 then 0 else if length bs mod 3 = 1 then 2 else 3)"
proof (induction bs rule: spec_encode64.induct)
  case (1 b1 b2 b3 rest)
  have "(3 + length rest) div 3 = Suc (length rest div 3)" by simp
  moreover have "(3 + length rest) mod 3 = length rest mod 3" by simp
  ultimately show ?case using 1 by (simp add: length_sextets)
qed (simp_all add: length_sextets)

lemma url_symbol_spec_encode64: "list_all url_symbol (spec_encode64 bs)"
proof (induction bs rule: spec_encode64.induct)
  case (1 b1 b2 b3 rest)
  show ?case by (rule sextets3 [of b1 b2 b3]) (use 1 in \<open>simp add: url_symbol_alphabet\<close>)
next
  case 4
  then show ?case by (simp add: sextets0)
next
  case (3 b1)
  show ?case by (rule sextets1 [of b1]) (simp add: url_symbol_alphabet)
next
  case (2 b1 b2)
  show ?case by (rule sextets2 [of b1 b2]) (simp add: url_symbol_alphabet)
qed


section \<open>Facts about fence removal and trimming\<close>

lemma fence_units: "fence = [0x60, 0x60, 0x60]"
  by (simp add: fence_def js_def)

lemma match_fence_None: "take 3 s \<noteq> fence \<Longrightarrow> match_fence tag s = None"
  by (simp add: match_fence_def)

lemma match_fence_Some: "match_fence tag s = Some rest \<Longrightarrow> take 3 s = fence"
  by (simp add: match_fence_def split: if_splits)

lemma remove_fences_no_fence: "\<not> has_fence s \<Longrightarrow> remove_fences tag s = s"
  by (induction s) (simp_all add: match_fence_None)

lemma remove_fences_head:
  assumes "remove_fences tag xs = 0x60 # ys"
  shows "\<exists>zs. xs = 0x60 # zs"
proof (cases xs)
  case Nil
  with assms show ?thesis by simp
next
  case (Cons x xs')
  show ?thesis
  proof (cases "match_fence tag xs")
    case None
    with assms Cons show ?thesis by simp
  next
    case (Some rest)
    then have "take 3 xs = fence" by (rule match_fence_Some)
    with Cons show ?thesis by (simp add: fence_units)
  qed
qed

lemma remove_fences_head2:
  assumes "remove_fences tag cs = 0x60 # 0x60 # ys"
  shows "\<exists>zs. cs = 0x60 # 0x60 # zs"
proof (cases cs)
  case Nil
  with assms show ?thesis by simp
next
  case (Cons x cs')
  show ?thesis
  proof (cases "match_fence tag cs")
    case None
    with assms Cons have "x = 0x60" and "remove_fences tag cs' = 0x60 # ys" by simp_all
    with remove_fences_head [of tag cs' ys] Cons show ?thesis by auto
  next
    case (Some rest)
    then have "take 3 cs = fence" by (rule match_fence_Some)
    then show ?thesis
      by (cases cs; cases "tl cs") (auto simp add: fence_units)
  qed
qed

lemma take3_fence: "take 3 s = fence \<longleftrightarrow> (\<exists>zs. s = 0x60 # 0x60 # 0x60 # zs)"
proof
  assume "take 3 s = fence"
  then have "take 3 s = [0x60, 0x60, 0x60]" by (simp add: fence_units)
  then show "\<exists>zs. s = 0x60 # 0x60 # 0x60 # zs"
    by (metis append_Cons append_Nil append_take_drop_id)
next
  assume "\<exists>zs. s = 0x60 # 0x60 # 0x60 # zs"
  then show "take 3 s = fence" by (auto simp add: fence_units)
qed

lemma no_fence_remove_fences: "\<not> has_fence (remove_fences tag s)"
proof (induction tag s rule: remove_fences.induct)
  case (1 tag)
  show ?case by simp
next
  case (2 tag c cs)
  show ?case
  proof (cases "match_fence tag (c # cs)")
    case (Some rest)
    with 2 show ?thesis by simp
  next
    case None
    then have nf: "take 3 (c # cs) \<noteq> fence" by (simp add: match_fence_def split: if_splits)
    have r: "remove_fences tag (c # cs) = c # remove_fences tag cs" using None by simp
    have "take 3 (c # remove_fences tag cs) \<noteq> fence"
    proof
      assume "take 3 (c # remove_fences tag cs) = fence"
      then obtain zs where z: "c # remove_fences tag cs = 0x60 # 0x60 # 0x60 # zs"
        unfolding take3_fence by blast
      then have "c = 0x60" and "remove_fences tag cs = 0x60 # 0x60 # zs" by simp_all
      with remove_fences_head2 [of tag cs zs] obtain ws where "cs = 0x60 # 0x60 # ws" by blast
      with \<open>c = 0x60\<close> have "take 3 (c # cs) = fence" by (simp add: fence_units)
      with nf show False by contradiction
    qed
    with 2(1) [OF None] show ?thesis unfolding r by simp
  qed
qed

lemma has_fence_iff: "has_fence s \<longleftrightarrow> (\<exists>p q. s = p @ fence @ q)"
proof (induction s)
  case Nil
  show ?case by (simp add: fence_units)
next
  case (Cons c cs)
  show ?case
  proof
    assume "has_fence (c # cs)"
    then consider "take 3 (c # cs) = fence" | "has_fence cs" by auto
    then show "\<exists>p q. c # cs = p @ fence @ q"
    proof cases
      case 1
      then have "c # cs = [] @ fence @ drop 3 (c # cs)"
        by (metis append_Nil append_take_drop_id)
      then show ?thesis by blast
    next
      case 2
      with Cons obtain p q where "cs = p @ fence @ q" by blast
      then have "c # cs = (c # p) @ fence @ q" by simp
      then show ?thesis by blast
    qed
  next
    assume "\<exists>p q. c # cs = p @ fence @ q"
    then obtain p q where pq: "c # cs = p @ fence @ q" by blast
    show "has_fence (c # cs)"
    proof (cases p)
      case Nil
      with pq have "take 3 (c # cs) = fence" by (simp add: fence_units)
      then show ?thesis by simp
    next
      case (Cons a p')
      with pq have "cs = p' @ fence @ q" by simp
      with Cons.IH show ?thesis by auto
    qed
  qed
qed

lemma no_fence_appendD: "\<not> has_fence (a @ b) \<Longrightarrow> \<not> has_fence a \<and> \<not> has_fence b"
  unfolding has_fence_iff by (metis append.assoc)

lemma no_fence_dropWhile: "\<not> has_fence s \<Longrightarrow> \<not> has_fence (dropWhile P s)"
  using no_fence_appendD [of "takeWhile P s" "dropWhile P s"] by simp

lemma no_fence_rev_dropWhile_rev: "\<not> has_fence s \<Longrightarrow> \<not> has_fence (rev (dropWhile P (rev s)))"
proof -
  have "s = rev (dropWhile P (rev s)) @ rev (takeWhile P (rev s))"
    by (metis rev_append rev_rev_ident takeWhile_dropWhile_id)
  then show "\<not> has_fence s \<Longrightarrow> \<not> has_fence (rev (dropWhile P (rev s)))"
    using no_fence_appendD by metis
qed

lemma no_fence_trim: "\<not> has_fence s \<Longrightarrow> \<not> has_fence (trim s)"
  unfolding trim_def by (intro no_fence_rev_dropWhile_rev no_fence_dropWhile)

lemma trim_trim: "trim (trim s) = trim s"
proof -
  define t where "t = dropWhile js_whitespace s"
  define u where "u = rev (dropWhile js_whitespace (rev t))"
  have tu: "t = u @ rev (takeWhile js_whitespace (rev t))"
    unfolding u_def by (metis rev_append rev_rev_ident takeWhile_dropWhile_id)
  have "dropWhile js_whitespace u = u"
  proof (cases u)
    case Nil
    then show ?thesis by simp
  next
    case (Cons a u')
    with tu have "t = a # (u' @ rev (takeWhile js_whitespace (rev t)))" by simp
    then have "t \<noteq> []" and "hd t = a" by (metis list.distinct(1), metis list.sel(1))
    then have "\<not> js_whitespace a" unfolding t_def using hd_dropWhile by metis
    with Cons show ?thesis by simp
  qed
  then have "trim u = rev (dropWhile js_whitespace (rev u))" by (simp add: trim_def)
  also have "\<dots> = u" by (simp add: u_def)
  finally show ?thesis by (simp add: trim_def u_def t_def)
qed

lemma cleanCode_trim: "cleanCode s = trim (remove_fences ascii_letter s)"
  by (simp add: cleanCode_def remove_fences_no_fence no_fence_remove_fences)

lemma cleanCode_idem: "cleanCode (cleanCode s) = cleanCode s"
proof -
  have "\<not> has_fence (cleanCode s)"
    unfolding cleanCode_trim by (intro no_fence_trim no_fence_remove_fences)
  then have "cleanCode (cleanCode s) = trim (cleanCode s)"
    by (simp add: cleanCode_trim [of "cleanCode s"] remove_fences_no_fence)
  then show ?thesis by (simp add: cleanCode_trim trim_trim)
qed

lemma count_dropWhile_le: "count_list (dropWhile P s) x \<le> count_list s x"
proof -
  have "count_list s x = count_list (takeWhile P s) x + count_list (dropWhile P s) x"
    by (metis count_list_append takeWhile_dropWhile_id)
  then show ?thesis by simp
qed

lemma count_dropWhile_eq: "\<not> P x \<Longrightarrow> count_list (dropWhile P s) x = count_list s x"
proof -
  assume "\<not> P x"
  then have "x \<notin> set (takeWhile P s)" using set_takeWhileD by metis
  then have "count_list (takeWhile P s) x = 0" by (simp add: count_list_0_iff)
  moreover have "count_list s x = count_list (takeWhile P s) x + count_list (dropWhile P s) x"
    by (metis count_list_append takeWhile_dropWhile_id)
  ultimately show ?thesis by simp
qed

lemma count_skip_newline_le: "count_list (skip_newline s) x \<le> count_list s x"
  by (simp add: skip_newline_def split: list.split)

lemma count_match_fence:
  assumes "match_fence tag s = Some rest"
  shows "count_list rest 0x60 + 3 \<le> count_list s 0x60"
proof -
  from assms have t: "take 3 s = fence" and r: "rest = skip_newline (dropWhile tag (drop 3 s))"
    by (auto simp add: match_fence_def split: if_splits)
  from t obtain zs where z: "s = 0x60 # 0x60 # 0x60 # zs" unfolding take3_fence by blast
  have "count_list rest 0x60 \<le> count_list zs 0x60"
    unfolding r z using count_skip_newline_le count_dropWhile_le le_trans by (metis drop0 drop_Suc_Cons numeral_3_eq_3)
  then show ?thesis unfolding z by simp
qed

lemma count_remove_fences_le: "count_list (remove_fences tag s) 0x60 \<le> count_list s 0x60"
proof (induction tag s rule: remove_fences.induct)
  case (1 tag)
  show ?case by simp
next
  case (2 tag c cs)
  show ?case
  proof (cases "match_fence tag (c # cs)")
    case None
    with 2(1) [OF None] show ?thesis by simp
  next
    case (Some rest)
    with 2(2) [OF Some] count_match_fence [OF Some] show ?thesis by simp
  qed
qed

lemma count_remove_fences_less:
  "has_fence s \<Longrightarrow> count_list (remove_fences tag s) 0x60 + 3 \<le> count_list s 0x60"
proof (induction tag s rule: remove_fences.induct)
  case (1 tag)
  then show ?case by simp
next
  case (2 tag c cs)
  show ?case
  proof (cases "match_fence tag (c # cs)")
    case None
    then have "take 3 (c # cs) \<noteq> fence" by (simp add: match_fence_def split: if_splits)
    with 2(3) have "has_fence cs" by simp
    with 2(1) [OF None] None show ?thesis by simp
  next
    case (Some rest)
    have "count_list (remove_fences tag rest) 0x60 \<le> count_list rest 0x60"
      by (rule count_remove_fences_le)
    with count_match_fence [OF Some] Some show ?thesis by simp
  qed
qed

lemma count_trim: "count_list (trim s) 0x60 = count_list s 0x60"
proof -
  have "\<not> js_whitespace 0x60" by (simp add: js_whitespace_def)
  then show ?thesis by (simp add: trim_def count_dropWhile_eq)
qed

lemma cleanCode_changes:
  assumes "has_fence s"
  shows "cleanCode s \<noteq> trim s"
proof
  assume e: "cleanCode s = trim s"
  have "count_list (cleanCode s) 0x60 + 3 \<le> count_list s 0x60"
    unfolding cleanCode_trim count_trim using assms by (rule count_remove_fences_less)
  then show False unfolding e count_trim by simp
qed

lemma cleanCode_no_fence: "\<not> has_fence s \<Longrightarrow> cleanCode s = trim s"
  by (simp add: cleanCode_trim remove_fences_no_fence)

section \<open>The encoder: the claims\<close>

text \<open>
  C1. Round trip: for every byte sequence \<open>B\<close>, of any length and any content (the
  empty one, lengths that are no multiple of 3, all-zero and all-0xFF included), the
  inverse 6-bit decoding applied to \<open>encode64 B\<close> gives \<open>B\<close> back; so no two byte
  sequences share an encoding.
\<close>

theorem encode64_roundtrip: "decode64 (encode64 B) = B \<and> inj encode64"
proof -
  have r: "decode64 (encode64 bs) = bs" for bs
    by (simp add: encode64_spec decode64_spec_encode64)
  then have "inj encode64" by (rule inj_on_inverseI)
  with r show ?thesis by simp
qed

text \<open>
  C3. The encoder computes, for each full group of three bytes, the four six-bit values
  \<open>b1 >> 2\<close>, \<open>((b1 & 0x3) << 4) | (b2 >> 4)\<close>, \<open>((b2 & 0xF) << 2) | (b3 >> 6)\<close> and
  \<open>b3 & 0x3F\<close>, each mapped through the alphabet, and goes on with the rest; a two-byte
  tail gives the three symbols of \<open>b1 >> 2\<close>, \<open>((b1 & 0x3) << 4) | (b2 >> 4)\<close> and
  \<open>(b2 & 0xF) << 2\<close>; a one-byte tail the two symbols of \<open>b1 >> 2\<close> and
  \<open>(b1 & 0x3) << 4\<close>.  So the encoder is the specification's encoder, \<open>[0,0,0]\<close> gives
  \<open>0000\<close> and \<open>[255,255,255]\<close> gives \<open>____\<close>.
\<close>

theorem encode64_groups:
  "encode64 (b1 # b2 # b3 # rest) =
     map alphabet
       [drop_bit 2 (uint b1),
        push_bit 4 (uint b1 AND 0x3) OR drop_bit 4 (uint b2),
        push_bit 2 (uint b2 AND 0xF) OR drop_bit 6 (uint b3),
        uint b3 AND 0x3F] @ encode64 rest
   \<and> encode64 [b1, b2] =
     map alphabet
       [drop_bit 2 (uint b1),
        push_bit 4 (uint b1 AND 0x3) OR drop_bit 4 (uint b2),
        push_bit 2 (uint b2 AND 0xF)]
   \<and> encode64 [b1] = map alphabet [drop_bit 2 (uint b1), push_bit 4 (uint b1 AND 0x3)]
   \<and> encode64 data = spec_encode64 data
   \<and> encode64 [0, 0, 0] = js ''0000''
   \<and> encode64 [255, 255, 255] = js ''____''"
proof (intro conjI)
  show "encode64 data = spec_encode64 data" by (rule encode64_spec)
  show "encode64 [0, 0, 0] = js ''0000''"
    by (simp add: encode64_spec sextets_def alphabet_def js_def)
  show "encode64 [255, 255, 255] = js ''____''"
    by (simp add: encode64_spec sextets_def alphabet_def js_def)
qed (simp_all add: encode64_spec sextets_def)

text \<open>
  C4. For \<open>n\<close> input bytes the encoder gives \<open>floor(n/3) * 4\<close> symbols plus 0, 2 or 3
  tail symbols for \<open>n mod 3\<close> = 0, 1, 2, which is \<open>ceil(n * 4 / 3)\<close>; the empty input
  gives the empty string.
\<close>

theorem encode64_length:
  "length (encode64 data) =
     (length data div 3) * 4 +
     (if length data mod 3 = 0 then 0 else if length data mod 3 = 1 then 2 else 3)
   \<and> int (length (encode64 data)) = \<lceil>real (length data) * 4 / 3\<rceil>
   \<and> encode64 [] = []"
proof (intro conjI)
  show l: "length (encode64 data) =
     (length data div 3) * 4 +
     (if length data mod 3 = 0 then 0 else if length data mod 3 = 1 then 2 else 3)"
    by (simp add: encode64_spec length_spec_encode64)
  have "\<lceil>real (length data) * 4 / 3\<rceil> = int ((4 * length data + 2) div 3)"
    by (simp add: ceiling_unique; linarith)
  moreover have "length (encode64 data) = (4 * length data + 2) div 3"
    unfolding l by (auto; presburger)
  ultimately show "int (length (encode64 data)) = \<lceil>real (length data) * 4 / 3\<rceil>"
    by simp
  show "encode64 [] = []"
    by (simp add: encode64_spec sextets0)
qed

text \<open>
  C5. Every character of the encoder's output is one of \<open>[0-9A-Za-z_-]\<close>.  Every
  argument that \<open>encode64\<close> and \<open>encode3bytes\<close> pass to \<open>encode6bit\<close> is masked with
  \<open>& 0x3f\<close>, so it lies between 0 and 63, \<open>encode6bit\<close> answers with the symbol of the
  alphabet and never with the fallback \<open>?\<close>, which does not occur in the output.
\<close>

theorem encode64_alphabet:
  "list_all url_symbol (encode64 data)
   \<and> 0x3F \<notin> set (encode64 data)
   \<and> 0 \<le> js_and x 0x3f \<and> js_and x 0x3f \<le> 63
   \<and> encode6bit (js_and x 0x3f) = [alphabet (js_and x 0x3f)]
   \<and> encode6bit (js_and x 0x3f) \<noteq> js ''?''"
proof -
  have a: "list_all url_symbol (encode64 data)"
    by (simp add: encode64_spec url_symbol_spec_encode64)
  have q: "\<not> url_symbol 0x3F" by (simp add: url_symbol_def)
  from a q have b: "0x3F \<notin> set (encode64 data)"
    by (auto simp add: list_all_iff)
  have r: "0 \<le> js_and x 0x3f \<and> js_and x 0x3f < 64" by (rule and63_bounds)
  then have "url_symbol (alphabet (js_and x 0x3f))" by (simp add: url_symbol_alphabet)
  with q have "alphabet (js_and x 0x3f) \<noteq> 0x3F" by metis
  then have "encode6bit (js_and x 0x3f) \<noteq> js ''?''"
    by (simp add: encode6bit_masked js_def)
  with a b r show ?thesis by (simp add: encode6bit_masked)
qed

section \<open>The pipeline: the claims\<close>

text \<open>
  C6, as the specification states it, fails: the text \<open>a ``` b\<close> has its only run of
  three backticks in the middle of a line, and \<open>cleanCode\<close> removes it, where trimming
  alone would leave the text as it is.
\<close>

theorem cleanCode_mid_line_fence_removed:
  "fences_mid_line None (js ''a ``` b'')
   \<and> cleanCode (js ''a ``` b'') = js ''a  b''
   \<and> trim (js ''a ``` b'') = js ''a ``` b''
   \<and> cleanCode (js ''a ``` b'') \<noteq> trim (js ''a ``` b'')"
  by (simp add: js_def cleanCode_def trim_def js_whitespace_def match_fence_def fence_def
       skip_newline_def ascii_letter_def no_tag_def line_middle_def)

text \<open>
  C6, amended: the Canonicalizer leaves a text unmodified apart from trimming exactly
  when the text contains no run of three backticks; three backticks are matched and
  removed wherever they stand, in the middle of a line as well, so that no run of three
  backticks is left in the canonical text.
\<close>

theorem cleanCode_unmodified_iff:
  "((cleanCode s = trim s) = (\<not> has_fence s)) \<and> \<not> has_fence (cleanCode s)"
proof
  show "(cleanCode s = trim s) = (\<not> has_fence s)"
    using cleanCode_changes cleanCode_no_fence by blast
  show "\<not> has_fence (cleanCode s)"
    unfolding cleanCode_trim by (intro no_fence_trim no_fence_remove_fences)
qed

theorem cleanCode_unmodified_witness:
  "\<not> has_fence (js '' a`b '') \<and> cleanCode (js '' a`b '') = js ''a`b''
   \<and> has_fence (js ''```a```b```c'') \<and> cleanCode (js ''```a```b```c'') = []
   \<and> cleanCode (js ''```a```b```c'') \<noteq> trim (js ''```a```b```c'')
   \<and> \<not> has_fence (cleanCode (js ''```a```b```c''))"
proof -
  have plain: "\<not> has_fence (js '' a`b '')" and trimmed: "trim (js '' a`b '') = js ''a`b''"
    by (simp_all add: js_def trim_def js_whitespace_def fence_def)
  have fenced: "has_fence (js ''```a```b```c'')"
    by (simp add: js_def fence_def)
  have gone: "cleanCode (js ''```a```b```c'') = []"
    by (simp add: js_def cleanCode_def trim_def match_fence_def fence_def skip_newline_def
         ascii_letter_def no_tag_def)
  show ?thesis
    using cleanCode_unmodified_iff [of "js '' a`b ''"]
          cleanCode_unmodified_iff [of "js ''```a```b```c''"]
          plain trimmed fenced gone
    by simp
qed

text \<open>
  C7. Idempotence: for every string \<open>s\<close>, canonicalizing the canonical text again
  changes nothing.
\<close>

theorem cleanCode_idempotent: "cleanCode (cleanCode s) = cleanCode s"
  by (rule cleanCode_idem)

text \<open>
  C8. \<open>getPlantUMLUrl\<close> never throws: for every compressor, input and console its
  outcome is a returned string.  The canonicalization, the UTF-8 encoding and the 6-bit
  encoding are total, so the \<open>try\<close> block throws exactly when the compressor does; what
  it throws is caught, one \<open>Encoding error\<close> entry is logged and the empty string is
  returned.
\<close>

theorem getPlantUMLUrl_never_throws:
  "(\<exists>url. fst (getPlantUMLUrl deflate code con) = Inr url)
   \<and> (code \<noteq> [] \<and> try_block deflate code = Inl e \<longrightarrow>
        getPlantUMLUrl deflate code con = (Inr [], con @ [(js ''Encoding error'', e)]))
   \<and> (try_block deflate code = Inl e \<longleftrightarrow> deflate (utf8_encode (cleanCode code)) = Inl e)"
  by (auto simp add: getPlantUMLUrl_def try_block_def Let_def split: sum.splits)

theorem getPlantUMLUrl_never_throws_witness:
  "getPlantUMLUrl (\<lambda>data. Inl (Error ''deflate failed'')) (js ''@startsalt'') []
     = (Inr [], [(js ''Encoding error'', Error ''deflate failed'')])"
  using getPlantUMLUrl_never_throws
    [of "\<lambda>data. Inl (Error ''deflate failed'')" "js ''@startsalt''" "[]" "Error ''deflate failed''"]
  by (simp add: try_block_def js_def)

text \<open>
  C9. For a non-empty input whose canonical bytes the compressor accepts, the result is
  the fixed base URL, then the scheme tag \<open>~1\<close>, then the encoding of the compressed
  bytes, and nothing is logged; for the empty input the result is the empty string.  (The
  parameter has the type \<open>string\<close>, so an absent input is no input of the function.)
\<close>

theorem getPlantUMLUrl_url:
  "(code \<noteq> [] \<and> deflate (utf8_encode (cleanCode code)) = Inr compressed \<longrightarrow>
      getPlantUMLUrl deflate code con =
        (Inr (js ''https://plantuml.com/plantuml/svg/'' @ js ''~1'' @ encode64 compressed), con))
   \<and> getPlantUMLUrl deflate [] con = (Inr [], con)"
  by (simp add: getPlantUMLUrl_def try_block_def Let_def js_def)

theorem getPlantUMLUrl_url_witness:
  "getPlantUMLUrl (\<lambda>data. Inr [0x78, 0xDA, 0x73, 0x04, 0x00, 0x00, 0x42, 0x00, 0x42]) (js ''A'') []
     = (Inr (js ''https://plantuml.com/plantuml/svg/~1UDfp1000GW12''), [])"
  using getPlantUMLUrl_url
    [of "js ''A''" "\<lambda>data. Inr [0x78, 0xDA, 0x73, 0x04, 0x00, 0x00, 0x42, 0x00, 0x42]"
        "[0x78, 0xDA, 0x73, 0x04, 0x00, 0x00, 0x42, 0x00, 0x42]" "[]"]
  by (simp add: js_def encode64_spec sextets_def alphabet_def)

text \<open>
  C10. A non-empty input whose canonical text is empty passes the guard, which looks at
  the raw text only: when the compressor answers on the empty byte sequence, the result
  is the full URL whose payload encodes the compression of zero bytes, not the empty
  string.  The witness runs a text of two fences and a text of two spaces.
\<close>

theorem getPlantUMLUrl_blank_input:
  "code \<noteq> [] \<Longrightarrow> cleanCode code = [] \<Longrightarrow> deflate [] = Inr compressed \<Longrightarrow>
     getPlantUMLUrl deflate code con =
       (Inr (js ''https://plantuml.com/plantuml/svg/~1'' @ encode64 compressed), con)
     \<and> fst (getPlantUMLUrl deflate code con) \<noteq> Inr []"
  by (simp add: getPlantUMLUrl_def try_block_def Let_def js_def)

theorem getPlantUMLUrl_blank_input_witness:
  "getPlantUMLUrl (\<lambda>data. Inr [0x78, 0xDA, 0x03, 0x00, 0x00, 0x00, 0x00, 0x01])
       (js ''```'' @ [0x0A] @ js ''```'') []
     = (Inr (js ''https://plantuml.com/plantuml/svg/~1UDe30000004''), [])
   \<and> getPlantUMLUrl (\<lambda>data. Inr [0x78, 0xDA, 0x03, 0x00, 0x00, 0x00, 0x00, 0x01])
       (js ''  '') []
     = (Inr (js ''https://plantuml.com/plantuml/svg/~1UDe30000004''), [])"
proof -
  have fences: "cleanCode (js ''```'' @ [0x0A] @ js ''```'') = []"
    by (simp add: js_def cleanCode_def trim_def match_fence_def fence_def skip_newline_def
         ascii_letter_def no_tag_def)
  have spaces: "cleanCode (js ''  '') = []"
    by (simp add: js_def cleanCode_def trim_def js_whitespace_def match_fence_def fence_def)
  have payload: "encode64 [0x78, 0xDA, 0x03, 0x00, 0x00, 0x00, 0x00, 0x01] = js ''UDe30000004''"
    by (simp add: js_def encode64_spec sextets_def alphabet_def)
  show ?thesis
    using getPlantUMLUrl_blank_input
            [of "js ''```'' @ [0x0A] @ js ''```''"
                "\<lambda>data. Inr [0x78, 0xDA, 0x03, 0x00, 0x00, 0x00, 0x00, 0x01]"
                "[0x78, 0xDA, 0x03, 0x00, 0x00, 0x00, 0x00, 0x01]" "[]", OF _ fences]
          getPlantUMLUrl_blank_input
            [of "js ''  ''"
                "\<lambda>data. Inr [0x78, 0xDA, 0x03, 0x00, 0x00, 0x00, 0x00, 0x01]"
                "[0x78, 0xDA, 0x03, 0x00, 0x00, 0x00, 0x00, 0x01]" "[]", OF _ spaces]
    by (simp add: payload) (simp add: js_def)
qed

end
